theory Spec2Isabelle
  imports Complex_Main "HOL-Library.Sublist"
begin

section \<open>Numbers\<close>

text \<open>
  The program computes on JavaScript numbers. Prices and indicator values are modelled
  as exact reals: every result below is about the arithmetic the code writes down, not
  about the rounding of IEEE doubles, and a series is a list of finite numbers. Array
  slots that the code leaves at \<open>null\<close> are \<open>None\<close>. Lengths and periods are
  natural numbers, the period of \<open>rsi\<close> positive wherever it divides.
\<close>

type_synonym num = real
type_synonym slot = "num option"

definition toNumber :: "slot \<Rightarrow> num" where
  \<comment> \<open>What a relational or arithmetic operator makes of an array slot: \<open>null\<close> is 0.\<close>
  "toNumber v = (case v of None \<Rightarrow> 0 | Some x \<Rightarrow> x)"

definition Math_round :: "num \<Rightarrow> int" where
  \<comment> \<open>\<open>Math.round\<close>: the nearest integer, a tie going up.\<close>
  "Math_round x = \<lfloor>x + 1 / 2\<rfloor>"

definition toFixed2 :: "num \<Rightarrow> num" where
  \<comment> \<open>\<open>+x.toFixed(2)\<close>: the nearest multiple of 1/100, a tie going away from zero.\<close>
  "toFixed2 x =
     (if x < 0 then - (of_int \<lfloor>- x * 100 + 1 / 2\<rfloor> / 100)
      else of_int \<lfloor>x * 100 + 1 / 2\<rfloor> / 100)"

section \<open>Indicators\<close>

subsection \<open>ema\<close>

function ema_loop :: "num list \<Rightarrow> num \<Rightarrow> nat \<Rightarrow> num \<Rightarrow> slot list \<Rightarrow> slot list" where
  "ema_loop values k i prev out =
     (if i < length values
      then (let prev' = values ! i * k + prev * (1 - k)
            in ema_loop values k (i + 1) prev' (out[i := Some prev']))
      else out)"
  by pat_completeness auto
termination
  by (relation "measure (\<lambda>(values, k, i, prev, out). length values - i)") auto

declare ema_loop.simps [simp del]

definition ema :: "num list \<Rightarrow> nat \<Rightarrow> slot list" where
  "ema values len =
     (let out = replicate (length values) None
      in if length values = 0 then out
         else (let k = 2 / (real len + 1);
                   prev = values ! 0
               in ema_loop values k 1 prev (out[0 := Some prev])))"

subsection \<open>rsi\<close>

definition rsi_value :: "num \<Rightarrow> num \<Rightarrow> num" where
  \<comment> \<open>\<open>100 - 100 / (1 + avgGain / (avgLoss || 1e-8))\<close>\<close>
  "rsi_value avgGain avgLoss =
     100 - 100 / (1 + avgGain / (if avgLoss = 0 then 1 / 10 ^ 8 else avgLoss))"

function deltas_loop :: "num list \<Rightarrow> nat \<Rightarrow> num list \<Rightarrow> num list" where
  "deltas_loop values i deltas =
     (if i < length values
      then deltas_loop values (i + 1) (deltas @ [values ! i - values ! (i - 1)])
      else deltas)"
  by pat_completeness auto
termination
  by (relation "measure (\<lambda>(values, i, deltas). length values - i)") auto

declare deltas_loop.simps [simp del]

function seed_loop :: "num list \<Rightarrow> nat \<Rightarrow> nat \<Rightarrow> num \<times> num \<Rightarrow> num \<times> num" where
  "seed_loop deltas period i (gain, loss) =
     (if i < period
      then (let d = deltas ! i
            in seed_loop deltas period (i + 1)
                 (if d \<ge> 0 then (gain + d, loss) else (gain, loss - d)))
      else (gain, loss))"
  by pat_completeness auto
termination
  by (relation "measure (\<lambda>(deltas, period, i, gl). period - i)") auto

declare seed_loop.simps [simp del]

function smooth_loop ::
  "num list \<Rightarrow> nat \<Rightarrow> nat \<Rightarrow> nat \<Rightarrow> num \<Rightarrow> num \<Rightarrow> slot list \<Rightarrow> slot list" where
  "smooth_loop deltas period n i avgGain avgLoss out =
     (if i < n
      then (let d = deltas ! (i - 1);
                g = (if d > 0 then d else 0);
                l = (if d < 0 then - d else 0);
                avgGain' = (avgGain * (real period - 1) + g) / real period;
                avgLoss' = (avgLoss * (real period - 1) + l) / real period
            in smooth_loop deltas period n (i + 1) avgGain' avgLoss'
                 (out[i := Some (rsi_value avgGain' avgLoss')]))
      else out)"
  by pat_completeness auto
termination
  by (relation "measure (\<lambda>(deltas, period, n, i, ag, al, out). n - i)") auto

declare smooth_loop.simps [simp del]

definition rsi :: "num list \<Rightarrow> nat \<Rightarrow> slot list" where
  "rsi values period =
     (let out = replicate (length values) None
      in if length values \<le> period then out
         else (let deltas = deltas_loop values 1 [];
                   (gain, loss) = seed_loop deltas period 0 (0, 0);
                   avgGain = gain / real period;
                   avgLoss = loss / real period;
                   out1 = out[period := Some (rsi_value avgGain avgLoss)]
               in smooth_loop deltas period (length values) (period + 1) avgGain avgLoss out1))"

section \<open>The analyzer\<close>

record candle =
  c_t :: int
  c_open :: num
  c_high :: num
  c_low :: num
  c_close :: num
  c_volume :: num
  c_isFinal :: bool

datatype signal_kind = BUY | SELL | HOLD

text \<open>
  The object \<open>analyzeAndSignal\<close> returns. A property the object literal does not
  mention is \<open>None\<close>. The property \<open>rsi\<close> is the field \<open>rsi_rounded\<close>, the name
  \<open>rsi\<close> being the indicator's. In the function the local \<open>price\<close> is
  \<open>price_now\<close>, and \<open>gap\<close> is the expression
  \<open>Math.abs(emaS[i] - emaL[i]) || 1\<close> that the four price levels repeat.
\<close>

record result =
  signal :: signal_kind
  entry :: "num option"
  stopLoss :: "num option"
  takeProfit :: "num option"
  confidence :: "num option"
  reason :: string
  price :: "num option"
  rsi_rounded :: "int option"

fun digits :: "nat \<Rightarrow> string" where
  "digits n =
     (if n < 10 then [''0123456789'' ! n]
      else digits (n div 10) @ [''0123456789'' ! (n mod 10)])"

declare digits.simps [simp del]

definition show_int :: "int \<Rightarrow> string" where
  \<comment> \<open>An integer inside a template literal: its decimal digits.\<close>
  "show_int z = (if z < 0 then CHR ''-'' # digits (nat (- z)) else digits (nat z))"

definition orOne :: "num \<Rightarrow> num" where
  \<comment> \<open>\<open>x || 1\<close>\<close>
  "orOne x = (if x = 0 then 1 else x)"

definition analyzeAndSignal :: "candle list \<Rightarrow> result" where
  "analyzeAndSignal ohlcArr =
     (let closes = map c_close ohlcArr;
          emaShortLen = 9;
          emaLongLen = 21;
          rsiPeriod = 14;
          rsiBuy = 45;
          rsiSell = 65;
          emaS = ema closes emaShortLen;
          emaL = ema closes emaLongLen;
          rsiArr = rsi closes rsiPeriod;
          i = int (length closes) - 1
      in if i \<le> int emaLongLen
         then \<lparr>signal = HOLD, entry = None, stopLoss = None, takeProfit = None,
               confidence = None, reason = ''not enough data'', price = None,
               rsi_rounded = None\<rparr>
         else
          (let prev = i - 1;
               crossedUp = (toNumber (emaS ! nat prev) \<le> toNumber (emaL ! nat prev)
                            \<and> toNumber (emaS ! nat i) > toNumber (emaL ! nat i));
               crossedDown = (toNumber (emaS ! nat prev) \<ge> toNumber (emaL ! nat prev)
                              \<and> toNumber (emaS ! nat i) < toNumber (emaL ! nat i));
               r = Math_round (case rsiArr ! nat i of None \<Rightarrow> 50 | Some v \<Rightarrow> v);
               price_now = closes ! nat i;
               gap = orOne \<bar>toNumber (emaS ! nat i) - toNumber (emaL ! nat i)\<bar>
           in if crossedUp \<and> r < rsiBuy
              then \<lparr>signal = BUY, entry = Some price_now,
                    stopLoss = Some (toFixed2 (price_now - 0.5 * gap)),
                    takeProfit = Some (toFixed2 (price_now + 1.5 * gap)),
                    confidence = Some (toFixed2 (min 0.95 (0.6 + of_int (rsiBuy - r) / 100))),
                    reason = ''EMA up cross + RSI '' @ show_int r,
                    price = Some price_now, rsi_rounded = Some r\<rparr>
              else if crossedDown \<and> r > rsiSell
              then \<lparr>signal = SELL, entry = Some price_now,
                    stopLoss = Some (toFixed2 (price_now + 0.5 * gap)),
                    takeProfit = Some (toFixed2 (price_now - 1.5 * gap)),
                    confidence = Some (toFixed2 (min 0.95 (0.6 + of_int (r - rsiSell) / 100))),
                    reason = ''EMA down cross + RSI '' @ show_int r,
                    price = Some price_now, rsi_rounded = Some r\<rparr>
              else \<lparr>signal = HOLD, entry = None, stopLoss = None, takeProfit = None,
                    confidence = None,
                    reason = ''No crossover (RSI '' @ show_int r @ '')'',
                    price = Some price_now, rsi_rounded = Some r\<rparr>))"

section \<open>The server\<close>

text \<open>
  \<open>lastSignal\<close> is the analyzer's object spread into a new one with the symbol and the
  time of the decision.
\<close>

record stamped = result +
  symbol :: string
  ts :: int

definition stamp :: "result \<Rightarrow> string \<Rightarrow> int \<Rightarrow> stamped" where
  \<comment> \<open>\<open>{ ...result, symbol: SYMBOL, ts: Date.now() }\<close>\<close>
  "stamp res SYMBOL now = result.extend res \<lparr>symbol = SYMBOL, ts = now\<rparr>"

text \<open>The envelopes \<open>{type, data}\<close> a subscriber receives, before serialisation.\<close>

datatype envelope =
  Price int num
  | Signal stamped
  | Status string

record client =
  readyOpen :: bool
  received :: "envelope list"

record state =
  ohlc :: "candle list"
  lastSignal :: "stamped option"
  clients :: "client list"

definition init :: state where
  "init = \<lparr>ohlc = [], lastSignal = None, clients = []\<rparr>"

definition send :: "envelope \<Rightarrow> client \<Rightarrow> client" where
  "send payload c = c\<lparr>received := received c @ [payload]\<rparr>"

definition broadcast :: "envelope \<Rightarrow> state \<Rightarrow> state" where
  "broadcast payload s =
     s\<lparr>clients := map (\<lambda>c. if readyOpen c then send payload c else c) (clients s)\<rparr>"

definition push_candle :: "candle \<Rightarrow> candle list \<Rightarrow> candle list" where
  \<comment> \<open>\<open>ohlc.push(candle); if (ohlc.length > 500) ohlc.shift();\<close>\<close>
  "push_candle c h = (let h' = h @ [c] in if length h' > 500 then tl h' else h')"

text \<open>
  An upstream frame: text that does not parse (the handler's \<open>catch\<close>), an object
  without \<open>k\<close>, or a kline. The clock is read once per closed candle and comes with
  the frame.
\<close>

datatype frame = Malformed | NoKline | Kline candle

definition on_message :: "string \<Rightarrow> frame \<Rightarrow> int \<Rightarrow> state \<Rightarrow> state" where
  "on_message SYMBOL f now s =
     (case f of
        Malformed \<Rightarrow> s
      | NoKline \<Rightarrow> s
      | Kline candle \<Rightarrow>
          (let s1 = broadcast (Price (c_t candle) (c_close candle)) s
           in if c_isFinal candle
              then (let h = push_candle candle (ohlc s1);
                        res = analyzeAndSignal h;
                        sig = stamp res SYMBOL now
                    in broadcast (Signal sig) (s1\<lparr>ohlc := h, lastSignal := Some sig\<rparr>))
              else s1))"

text \<open>The body of a request to \<open>/push-ohlc\<close>, and what a route answers.\<close>

datatype body = NotArray | Array "candle list"

datatype response =
  Ok_signal stamped
  | Ok_empty
  | Ok_candles "candle list"
  | Ok_count nat
  | Bad_request string

definition slice_last :: "nat \<Rightarrow> 'a list \<Rightarrow> 'a list" where
  \<comment> \<open>\<open>arr.slice(-n)\<close>\<close>
  "slice_last n xs = drop (length xs - n) xs"


definition get_ohlc :: "state \<Rightarrow> response" where
  "get_ohlc s = Ok_candles (slice_last 200 (ohlc s))"

definition push_ohlc :: "body \<Rightarrow> state \<Rightarrow> response \<times> state" where
  "push_ohlc b s =
     (case b of
        NotArray \<Rightarrow> (Bad_request ''send array'', s)
      | Array arr \<Rightarrow>
          (let s' = s\<lparr>ohlc := slice_last 500 arr\<rparr>
           in (Ok_count (length (ohlc s')), s')))"

definition on_connection :: "state \<Rightarrow> state" where
  \<comment> \<open>The new socket joins the server's clients, open, and is greeted.\<close>
  "on_connection s =
     (let ws = \<lparr>readyOpen = True, received = []\<rparr>;
          ws1 = (case lastSignal s of Some sig \<Rightarrow> send (Signal sig) ws | None \<Rightarrow> ws);
          ws2 = send (Status ''connected'') ws1
      in s\<lparr>clients := clients s @ [ws2]\<rparr>)"

definition on_client_close :: "nat \<Rightarrow> state \<Rightarrow> state" where
  \<comment> \<open>A subscriber's socket is no longer open; nothing more is sent to it.\<close>
  "on_client_close j s =
     (if j < length (clients s)
      then s\<lparr>clients := (clients s)[j := (clients s ! j)\<lparr>readyOpen := False\<rparr>]\<rparr>
      else s)"

text \<open>
  Everything that can happen to the process, one handler at a time. The upstream
  socket closing, failing and being reopened touch neither the history nor the last signal
  nor the subscribers.
\<close>

datatype event =
  Message frame int
  | Feed_close
  | Feed_error
  | Reconnect
  | Get_root
  | Get_last_signal
  | Get_ohlc
  | Push_ohlc body
  | Connection
  | Client_close nat

definition step :: "string \<Rightarrow> state \<Rightarrow> event \<Rightarrow> state" where
  "step SYMBOL s e =
     (case e of
        Message f now \<Rightarrow> on_message SYMBOL f now s
      | Feed_close \<Rightarrow> s
      | Feed_error \<Rightarrow> s
      | Reconnect \<Rightarrow> s
      | Get_root \<Rightarrow> s
      | Get_last_signal \<Rightarrow> s
      | Get_ohlc \<Rightarrow> s
      | Push_ohlc b \<Rightarrow> snd (push_ohlc b s)
      | Connection \<Rightarrow> on_connection s
      | Client_close j \<Rightarrow> on_client_close j s)"

definition run :: "string \<Rightarrow> state \<Rightarrow> event list \<Rightarrow> state" where
  "run SYMBOL s es = foldl (step SYMBOL) s es"


definition closed_frames :: "(candle \<times> int) list \<Rightarrow> event list" where
  \<comment> \<open>One upstream frame per candle, each with the clock's reading on arrival.\<close>
  "closed_frames cns = map (\<lambda>(candle, now). Message (Kline candle) now) cns"

definition greeting :: "state \<Rightarrow> envelope list" where
  \<comment> \<open>What a socket that connects in state \<open>s\<close> is sent at once.\<close>
  "greeting s =
     (case lastSignal s of Some sig \<Rightarrow> [Signal sig] | None \<Rightarrow> []) @ [Status ''connected'']"

section \<open>The indicators as recurrences\<close>

text \<open>
  The exponential moving average written as a recurrence over the series, without the
  array and the index: the seed is the first value, and each later value is
  \<open>x * k + prev * (1 - k)\<close>.
\<close>

primrec ema_from :: "num \<Rightarrow> num \<Rightarrow> num list \<Rightarrow> num list" where
  "ema_from k prev [] = []"
| "ema_from k prev (x # xs) =
     (x * k + prev * (1 - k)) # ema_from k (x * k + prev * (1 - k)) xs"

definition ema_list :: "num \<Rightarrow> num list \<Rightarrow> num list" where
  "ema_list k vs = (case vs of [] \<Rightarrow> [] | x # xs \<Rightarrow> x # ema_from k x xs)"

text \<open>
  The relative strength index as the specification words it. The gain and the loss at
  index \<open>i\<close> are the positive and the negative part of the first difference
  \<open>values[i] - values[i-1]\<close>. The average at index \<open>period\<close> is the simple mean over
  the first \<open>period\<close> differences, and each later average is Wilder's smoothing of the
  one before.
\<close>

definition spec_gain :: "num list \<Rightarrow> nat \<Rightarrow> num" where
  "spec_gain vs i = max (vs ! i - vs ! (i - 1)) 0"

definition spec_loss :: "num list \<Rightarrow> nat \<Rightarrow> num" where
  "spec_loss vs i = max (vs ! (i - 1) - vs ! i) 0"

definition spec_mean :: "(nat \<Rightarrow> num) \<Rightarrow> nat \<Rightarrow> num" where
  "spec_mean f period = sum_list (map f [1..<period + 1]) / real period"

fun spec_wilder :: "(nat \<Rightarrow> num) \<Rightarrow> nat \<Rightarrow> nat \<Rightarrow> num" where
  "spec_wilder f period i =
     (if i \<le> period then spec_mean f period
      else (spec_wilder f period (i - 1) * (real period - 1) + f i) / real period)"

declare spec_wilder.simps [simp del]

definition spec_avgGain :: "num list \<Rightarrow> nat \<Rightarrow> nat \<Rightarrow> num" where
  "spec_avgGain vs period i = spec_wilder (spec_gain vs) period i"

definition spec_avgLoss :: "num list \<Rightarrow> nat \<Rightarrow> nat \<Rightarrow> num" where
  "spec_avgLoss vs period i = spec_wilder (spec_loss vs) period i"

section \<open>Concrete inputs\<close>

definition flat_candle :: "num \<Rightarrow> candle" where
  \<comment> \<open>A closed candle that opened, peaked, bottomed and closed at one price.\<close>
  "flat_candle x =
     \<lparr>c_t = 0, c_open = x, c_high = x, c_low = x, c_close = x, c_volume = 1,
      c_isFinal = True\<rparr>"

definition numbered_candle :: "nat \<Rightarrow> candle" where
  "numbered_candle j = (flat_candle (real j))\<lparr>c_t := int j\<rparr>"

definition rising20 :: "num list" where
  "rising20 = [1, 2, 3, 4, 5, 6, 7, 8, 9, 10, 11, 12, 13, 14, 15, 16, 17, 18, 19, 20]"

definition choppy15 :: "num list" where
  "choppy15 = [10, 11, 10, 12, 13, 12, 14, 13, 15, 16, 15, 17, 16, 18, 19]"

definition near_miss23 :: "num list" where
  \<comment> \<open>The short average crosses above the long one at the last index, where the
      relative strength index is about 44.84.\<close>
  "near_miss23 =
     [100, 100, 97, 95, 96, 93, 93, 93, 91, 89, 90, 93, 90, 92, 95, 95, 94, 96, 96, 96,
      97, 95, 96]"


section \<open>The moving average\<close>

lemma length_ema_from [simp]: "length (ema_from k p xs) = length xs"
  by (induction xs arbitrary: p) simp_all

lemma ema_loop_unfold:
  "i \<le> length vs \<Longrightarrow> length out = length vs \<Longrightarrow>
   ema_loop vs k i prev out = take i out @ map Some (ema_from k prev (drop i vs))"
proof (induction vs k i prev out rule: ema_loop.induct)
  case (1 vs k i prev out)
  show ?case
  proof (cases "i < length vs")
    case True
    let ?p = "vs ! i * k + prev * (1 - k)"
    have d: "drop i vs = vs ! i # drop (Suc i) vs"
      using True by (simp add: Cons_nth_drop_Suc)
    have t: "take (Suc i) (out[i := Some ?p]) = take i out @ [Some ?p]"
      using True 1(3) by (simp add: take_Suc_conv_app_nth)
    have "ema_loop vs k i prev out = ema_loop vs k (i + 1) ?p (out[i := Some ?p])"
      using True by (subst ema_loop.simps) (simp add: Let_def)
    also have "\<dots> = take (i + 1) (out[i := Some ?p]) @ map Some (ema_from k ?p (drop (i + 1) vs))"
      using True 1(3) by (intro 1(1)[OF True refl]) simp_all
    finally show ?thesis using d t by simp
  next
    case False
    then show ?thesis using 1(2,3) by (subst ema_loop.simps) simp
  qed
qed

lemma ema_eq_list: "ema values len = map Some (ema_list (2 / (real len + 1)) values)"
proof (cases "values")
  case Nil
  then show ?thesis by (simp add: ema_def ema_list_def)
next
  case (Cons x xs)
  then show ?thesis
    by (simp add: ema_def ema_list_def Let_def ema_loop_unfold)
qed

lemma ema_from_nth:
  "j < length xs \<Longrightarrow>
   ema_from k p xs ! j = xs ! j * k + (if j = 0 then p else ema_from k p xs ! (j - 1)) * (1 - k)"
proof (induction xs arbitrary: p j)
  case Nil then show ?case by simp
next
  case (Cons x xs)
  show ?case
  proof (cases j)
    case 0 then show ?thesis by simp
  next
    case (Suc m)
    then show ?thesis using Cons.IH[of m "x * k + p * (1 - k)"] Cons.prems
      by (cases m) simp_all
  qed
qed

lemma ema_list_length [simp]: "length (ema_list k vs) = length vs"
  by (cases vs) (simp_all add: ema_list_def)

lemma ema_list_nth:
  assumes "i < length vs"
  shows "ema_list k vs ! i =
           (if i = 0 then vs ! 0 else vs ! i * k + ema_list k vs ! (i - 1) * (1 - k))"
proof (cases vs)
  case Nil
  then show ?thesis using assms by simp
next
  case (Cons x xs)
  show ?thesis
  proof (cases i)
    case 0
    then show ?thesis by (simp add: Cons ema_list_def)
  next
    case (Suc j)
    then have "j < length xs" using assms Cons by simp
    from ema_from_nth[OF this, of k x] show ?thesis
      by (cases j) (simp_all add: Cons Suc ema_list_def)
  qed
qed

text \<open>
  Claim C2. For a non-empty series and any length, \<open>ema\<close> returns an array as long
  as the series with no \<open>null\<close> entry; its first entry is the first value of the
  series, and every later entry is \<open>series[i] * k + out[i-1] * (1 - k)\<close> with
  \<open>k = 2 / (length + 1)\<close>.
\<close>

theorem ema_recurrence:
  assumes "vs \<noteq> []"
  shows "length (ema vs len) = length vs
       \<and> (\<forall>i<length vs. ema vs len ! i \<noteq> None)
       \<and> ema vs len ! 0 = Some (vs ! 0)
       \<and> (\<forall>i. 1 \<le> i \<and> i < length vs \<longrightarrow>
            (\<exists>p. ema vs len ! (i - 1) = Some p
               \<and> ema vs len ! i
                   = Some (vs ! i * (2 / (real len + 1)) + p * (1 - 2 / (real len + 1)))))"
proof -
  let ?k = "2 / (real len + 1)"
  have e: "ema vs len = map Some (ema_list ?k vs)" by (rule ema_eq_list)
  have "0 < length vs" using assms by simp
  then have z: "ema vs len ! 0 = Some (vs ! 0)"
    by (simp add: e ema_list_nth)
  have len: "length (ema vs len) = length vs"
    by (simp add: e)
  have nn: "\<forall>i<length vs. ema vs len ! i \<noteq> None"
    by (simp add: e)
  have r: "\<exists>p. ema vs len ! (i - 1) = Some p
             \<and> ema vs len ! i = Some (vs ! i * ?k + p * (1 - ?k))"
    if "1 \<le> i" "i < length vs" for i
  proof -
    have a: "ema vs len ! (i - 1) = Some (ema_list ?k vs ! (i - 1))"
      using that by (simp add: e)
    have b: "ema vs len ! i = Some (ema_list ?k vs ! i)"
      using that by (simp add: e)
    have c: "ema_list ?k vs ! i = vs ! i * ?k + ema_list ?k vs ! (i - 1) * (1 - ?k)"
      using that ema_list_nth[of i vs ?k] by simp
    show ?thesis unfolding a b c by blast
  qed
  show ?thesis using len nn z r by blast
qed

theorem ema_recurrence_witness:
  "[1, 2, 3, 4, 5 :: real] \<noteq> []
   \<and> length (ema [1, 2, 3, 4, 5] 9) = 5
   \<and> ema [1, 2, 3, 4, 5] 9 ! 0 = Some 1"
  using ema_recurrence [of "[1, 2, 3, 4, 5]" 9] by simp

text \<open>The first five values of the 9-period average over 1, 2, 3, 4, 5.\<close>

lemma ema_first_five:
  "ema [1, 2, 3, 4, 5] 9 = [Some 1, Some (6 / 5), Some (39 / 25), Some (256 / 125), Some (1649 / 625)]"
  by (simp add: ema_eq_list ema_list_def)

section \<open>The relative strength index\<close>

lemma deltas_loop_unfold:
  "1 \<le> i \<Longrightarrow>
   deltas_loop vs i ds = ds @ map (\<lambda>j. vs ! j - vs ! (j - 1)) [i..<length vs]"
proof (induction vs i ds rule: deltas_loop.induct)
  case (1 vs i ds)
  show ?case
  proof (cases "i < length vs")
    case True
    have "deltas_loop vs i ds = deltas_loop vs (i + 1) (ds @ [vs ! i - vs ! (i - 1)])"
      using True by (subst deltas_loop.simps) simp
    also have "\<dots> = (ds @ [vs ! i - vs ! (i - 1)]) @ map (\<lambda>j. vs ! j - vs ! (j - 1)) [i + 1..<length vs]"
      by (rule 1(1)[OF True]) simp
    finally show ?thesis using True by (simp add: upt_conv_Cons)
  next
    case False
    then show ?thesis by (subst deltas_loop.simps) simp
  qed
qed

lemma deltas_nth:
  assumes "j + 1 < length vs"
  shows "deltas_loop vs 1 [] ! j = vs ! (j + 1) - vs ! j"
proof -
  have "[1..<length vs] ! j = 1 + j"
    using assms by (intro nth_upt) simp
  then show ?thesis
    using assms by (simp add: deltas_loop_unfold)
qed

lemma seed_loop_unfold:
  "seed_loop ds period i (g, l) =
     (g + sum_list (map (\<lambda>j. max (ds ! j) 0) [i..<period]),
      l + sum_list (map (\<lambda>j. max (- (ds ! j)) 0) [i..<period]))"
proof (induction ds period i "(g, l)" arbitrary: g l rule: seed_loop.induct)
  case (1 ds period i g l)
  show ?case
  proof (cases "i < period")
    case True
    note up = upt_conv_Cons[OF True]
    show ?thesis
    proof (cases "ds ! i \<ge> 0")
      case pos: True
      have "seed_loop ds period i (g, l) = seed_loop ds period (i + 1) (g + ds ! i, l)"
        using True pos by (subst seed_loop.simps) (simp add: Let_def)
      also have "\<dots> = (g + ds ! i + sum_list (map (\<lambda>j. max (ds ! j) 0) [i + 1..<period]),
                        l + sum_list (map (\<lambda>j. max (- (ds ! j)) 0) [i + 1..<period]))"
        using pos by (intro 1(1)[OF True refl]) simp
      finally show ?thesis using pos by (simp add: up)
    next
      case neg: False
      have "seed_loop ds period i (g, l) = seed_loop ds period (i + 1) (g, l - ds ! i)"
        using True neg by (subst seed_loop.simps) (simp add: Let_def)
      also have "\<dots> = (g + sum_list (map (\<lambda>j. max (ds ! j) 0) [i + 1..<period]),
                        l - ds ! i + sum_list (map (\<lambda>j. max (- (ds ! j)) 0) [i + 1..<period]))"
        using neg by (intro 1(1)[OF True refl]) simp
      finally show ?thesis using neg by (simp add: up)
    qed
  next
    case False
    then show ?thesis by (subst seed_loop.simps) simp
  qed
qed

lemma smooth_loop_unfold:
  assumes "0 < i" and "i \<le> n" and "length out = n"
    and "ag = AG (i - 1)" and "al = AL (i - 1)"
    and "\<And>j. i \<le> j \<Longrightarrow> j < n \<Longrightarrow>
           AG j = (AG (j - 1) * (real period - 1) + max (ds ! (j - 1)) 0) / real period"
    and "\<And>j. i \<le> j \<Longrightarrow> j < n \<Longrightarrow>
           AL j = (AL (j - 1) * (real period - 1) + max (- (ds ! (j - 1))) 0) / real period"
  shows "smooth_loop ds period n i ag al out =
           take i out @ map (\<lambda>j. Some (rsi_value (AG j) (AL j))) [i..<n]"
  using assms
proof (induction ds period n i ag al out rule: smooth_loop.induct)
  case (1 ds period n i ag al out)
  show ?case
  proof (cases "i < n")
    case True
    let ?d = "ds ! (i - 1)"
    have g: "(if ?d > 0 then ?d else 0) = max ?d 0" by simp
    have l: "(if ?d < 0 then - ?d else 0) = max (- ?d) 0" by simp
    have ag': "(ag * (real period - 1) + max ?d 0) / real period = AG i"
      using 1(7)[of i] True 1(5) by simp
    have al': "(al * (real period - 1) + max (- ?d) 0) / real period = AL i"
      using 1(8)[of i] True 1(6) by simp
    let ?out = "out[i := Some (rsi_value (AG i) (AL i))]"
    have "smooth_loop ds period n i ag al out = smooth_loop ds period n (i + 1) (AG i) (AL i) ?out"
      by (subst smooth_loop.simps) (simp only: Let_def g l ag' al' True if_True)
    also have "\<dots> = take (i + 1) ?out @ map (\<lambda>j. Some (rsi_value (AG j) (AL j))) [i + 1..<n]"
    proof (rule 1(1)[OF True refl refl refl, of _ _ ])
      show "(AG i) = (ag * (real period - 1) + (if 0 < ?d then ?d else 0)) / real period"
        using ag' g by simp
      show "(AL i) = (al * (real period - 1) + (if ?d < 0 then - ?d else 0)) / real period"
        using al' l by simp
    qed (use True 1(4) 1(7) 1(8) in simp_all)
    finally show ?thesis
      using True 1(4) by (simp add: upt_conv_Cons take_Suc_conv_app_nth)
  next
    case False
    then show ?thesis using 1(3,4) by (subst smooth_loop.simps) simp
  qed
qed

lemma sum_gain_eq:
  assumes "period < length vs"
  shows "sum_list (map (\<lambda>j. max (deltas_loop vs 1 [] ! j) 0) [0..<period])
           = sum_list (map (spec_gain vs) [1..<period + 1])"
    and "sum_list (map (\<lambda>j. max (- (deltas_loop vs 1 [] ! j)) 0) [0..<period])
           = sum_list (map (spec_loss vs) [1..<period + 1])"
proof -
  have s: "[1..<period + 1] = map Suc [0..<period]"
    by (simp add: map_Suc_upt)
  have g: "max (deltas_loop vs 1 [] ! j) 0 = (spec_gain vs \<circ> Suc) j"
    and l: "max (- (deltas_loop vs 1 [] ! j)) 0 = (spec_loss vs \<circ> Suc) j"
    if "j \<in> set [0..<period]" for j
    using that assms deltas_nth[of j vs] by (simp_all add: spec_gain_def spec_loss_def)
  have "map (\<lambda>j. max (deltas_loop vs 1 [] ! j) 0) [0..<period]
          = map (spec_gain vs \<circ> Suc) [0..<period]"
    by (rule map_cong[OF refl]) (rule g)
  then have mg: "map (\<lambda>j. max (deltas_loop vs 1 [] ! j) 0) [0..<period]
          = map (spec_gain vs) [1..<period + 1]"
    by (simp only: s map_map)
  have "map (\<lambda>j. max (- (deltas_loop vs 1 [] ! j)) 0) [0..<period]
          = map (spec_loss vs \<circ> Suc) [0..<period]"
    by (rule map_cong[OF refl]) (rule l)
  then have ml: "map (\<lambda>j. max (- (deltas_loop vs 1 [] ! j)) 0) [0..<period]
          = map (spec_loss vs) [1..<period + 1]"
    by (simp only: s map_map)
  show "sum_list (map (\<lambda>j. max (deltas_loop vs 1 [] ! j) 0) [0..<period])
           = sum_list (map (spec_gain vs) [1..<period + 1])"
    by (simp only: mg)
  show "sum_list (map (\<lambda>j. max (- (deltas_loop vs 1 [] ! j)) 0) [0..<period])
           = sum_list (map (spec_loss vs) [1..<period + 1])"
    by (simp only: ml)
qed

lemma rsi_unfold:
  assumes "period < length vs"
  shows "rsi vs period =
           replicate period None
           @ map (\<lambda>j. Some (rsi_value (spec_avgGain vs period j) (spec_avgLoss vs period j)))
               [period..<length vs]"
proof -
  let ?n = "length vs"
  let ?ds = "deltas_loop vs 1 []"
  let ?AG = "spec_wilder (spec_gain vs) period"
  let ?AL = "spec_wilder (spec_loss vs) period"
  let ?F = "\<lambda>j. Some (rsi_value (?AG j) (?AL j))"
  let ?out1 = "(replicate ?n None)[period := ?F period]"
  have seed: "seed_loop ?ds period 0 (0, 0)
                = (sum_list (map (spec_gain vs) [1..<period + 1]),
                   sum_list (map (spec_loss vs) [1..<period + 1]))"
    by (simp only: seed_loop_unfold sum_gain_eq[OF assms] add_0)
  have ag0: "sum_list (map (spec_gain vs) [1..<period + 1]) / real period = ?AG period"
    by (subst spec_wilder.simps) (simp add: spec_mean_def)
  have al0: "sum_list (map (spec_loss vs) [1..<period + 1]) / real period = ?AL period"
    by (subst spec_wilder.simps) (simp add: spec_mean_def)
  have recG: "?AG j = (?AG (j - 1) * (real period - 1) + max (?ds ! (j - 1)) 0) / real period"
    if "period + 1 \<le> j" "j < ?n" for j
  proof -
    have "?ds ! (j - 1) = vs ! j - vs ! (j - 1)"
      using that deltas_nth[of "j - 1" vs] by simp
    then show ?thesis using that
      by (subst spec_wilder.simps) (simp add: spec_gain_def)
  qed
  have recL: "?AL j = (?AL (j - 1) * (real period - 1) + max (- (?ds ! (j - 1))) 0) / real period"
    if "period + 1 \<le> j" "j < ?n" for j
  proof -
    have "?ds ! (j - 1) = vs ! j - vs ! (j - 1)"
      using that deltas_nth[of "j - 1" vs] by simp
    then show ?thesis using that
      by (subst spec_wilder.simps) (simp add: spec_loss_def)
  qed
  have "smooth_loop ?ds period ?n (period + 1) (?AG period) (?AL period) ?out1
          = take (period + 1) ?out1 @ map ?F [period + 1..<?n]"
    using assms recG recL by (intro smooth_loop_unfold) simp_all
  also have "take (period + 1) ?out1 = replicate period None @ [?F period]"
    using assms by (simp add: take_Suc_conv_app_nth min_def)
  finally have sm: "smooth_loop ?ds period ?n (period + 1) (?AG period) (?AL period) ?out1
          = replicate period None @ map ?F [period..<?n]"
    using assms by (simp add: upt_conv_Cons)
  have nle: "\<not> length vs \<le> period" using assms by simp
  have "rsi vs period = smooth_loop ?ds period ?n (period + 1) (?AG period) (?AL period) ?out1"
    by (simp only: rsi_def Let_def seed nle if_False prod.case ag0 al0)
  then show ?thesis using sm by (simp add: spec_avgGain_def spec_avgLoss_def)
qed

lemma rsi_length: "length (rsi vs period) = length vs"
proof (cases "period < length vs")
  case True
  then show ?thesis by (simp add: rsi_unfold)
next
  case False
  then show ?thesis by (simp add: rsi_def)
qed

lemma rsi_nth_early:
  assumes "period < length vs" and "i < period"
  shows "rsi vs period ! i = None"
  using assms by (simp add: rsi_unfold nth_append)

lemma rsi_nth_late:
  assumes "period \<le> i" and "i < length vs"
  shows "rsi vs period ! i
           = Some (rsi_value (spec_avgGain vs period i) (spec_avgLoss vs period i))"
proof -
  have "[period..<length vs] ! (i - period) = period + (i - period)"
    using assms by (intro nth_upt) simp
  then show ?thesis
    using assms by (simp add: rsi_unfold nth_append)
qed

lemma sum_list_map_nonneg:
  "(\<And>x. x \<in> set xs \<Longrightarrow> 0 \<le> f x) \<Longrightarrow> (0::real) \<le> sum_list (map f xs)"
  by (induction xs) simp_all

lemma wilder_nonneg:
  assumes "0 < period" and "\<And>j. 0 \<le> f j"
  shows "0 \<le> spec_wilder f period i"
proof (induction i)
  case 0
  have "0 \<le> sum_list (map f [1..<period + 1])"
    using assms(2) by (intro sum_list_map_nonneg)
  then show ?case
    using assms(1) by (subst spec_wilder.simps) (simp add: spec_mean_def)
next
  case (Suc i)
  show ?case
  proof (cases "Suc i \<le> period")
    case True
    have "0 \<le> sum_list (map f [1..<period + 1])"
      using assms(2) by (intro sum_list_map_nonneg)
    then show ?thesis
      using True assms(1) by (subst spec_wilder.simps) (simp add: spec_mean_def)
  next
    case False
    have "0 \<le> spec_wilder f period i * (real period - 1) + f (Suc i)"
      using Suc assms by simp
    then show ?thesis
      using False assms(1) by (subst spec_wilder.simps) simp
  qed
qed

text \<open>
  The divisions of \<open>rsi\<close> are never by zero: the averages are not negative, so the
  divisor of the average gain is positive and the divisor of 100 is at least 1.
\<close>

lemma rsi_divisors_positive:
  assumes "0 < period"
  shows "0 < (if spec_avgLoss vs period i = 0 then 1 / 10 ^ 8 else spec_avgLoss vs period i)"
    and "1 \<le> 1 + spec_avgGain vs period i
                  / (if spec_avgLoss vs period i = 0 then 1 / 10 ^ 8 else spec_avgLoss vs period i)"
proof -
  have l: "0 \<le> spec_avgLoss vs period i"
    unfolding spec_avgLoss_def using assms by (intro wilder_nonneg) (simp_all add: spec_loss_def)
  have g: "0 \<le> spec_avgGain vs period i"
    unfolding spec_avgGain_def using assms by (intro wilder_nonneg) (simp_all add: spec_gain_def)
  show d: "0 < (if spec_avgLoss vs period i = 0 then 1 / 10 ^ 8 else spec_avgLoss vs period i)"
    using l by simp
  show "1 \<le> 1 + spec_avgGain vs period i
                  / (if spec_avgLoss vs period i = 0 then 1 / 10 ^ 8 else spec_avgLoss vs period i)"
    using g d by (simp del: of_nat_0_le_iff)
qed

text \<open>
  Claim C3, amended. For a series with more than \<open>period\<close> values, \<open>rsi\<close> returns
  an array as long as the series that is \<open>null\<close> at every index below \<open>period\<close>
  and defined from index \<open>period\<close> on. At index \<open>period\<close> the average gain and
  the average loss are the simple means of the gains and of the losses over the first
  \<open>period\<close> first differences; at every later index each is
  \<open>(previous * (period - 1) + current) / period\<close>; and every defined entry is
  \<open>100 - 100 / (1 + avgGain / avgLoss)\<close>, with \<open>1e-8\<close> in place of an average
  loss of exactly zero.
\<close>

theorem rsi_wilder:
  assumes "0 < period" and "period < length vs"
  shows "length (rsi vs period) = length vs
       \<and> (\<forall>i<period. rsi vs period ! i = None)
       \<and> spec_avgGain vs period period
           = sum_list (map (\<lambda>j. max (vs ! j - vs ! (j - 1)) 0) [1..<period + 1]) / real period
       \<and> spec_avgLoss vs period period
           = sum_list (map (\<lambda>j. max (vs ! (j - 1) - vs ! j) 0) [1..<period + 1]) / real period
       \<and> (\<forall>i>period.
            spec_avgGain vs period i
              = (spec_avgGain vs period (i - 1) * (real period - 1)
                 + max (vs ! i - vs ! (i - 1)) 0) / real period
          \<and> spec_avgLoss vs period i
              = (spec_avgLoss vs period (i - 1) * (real period - 1)
                 + max (vs ! (i - 1) - vs ! i) 0) / real period)
       \<and> (\<forall>i. period \<le> i \<and> i < length vs \<longrightarrow>
            rsi vs period ! i
              = Some (100 - 100 / (1 + spec_avgGain vs period i
                                        / (if spec_avgLoss vs period i = 0 then 1 / 10 ^ 8
                                           else spec_avgLoss vs period i))))"
proof -
  have g: "spec_gain vs = (\<lambda>j. max (vs ! j - vs ! (j - 1)) 0)"
    and l: "spec_loss vs = (\<lambda>j. max (vs ! (j - 1) - vs ! j) 0)"
    by (simp_all add: spec_gain_def spec_loss_def fun_eq_iff)
  have a: "length (rsi vs period) = length vs"
    by (rule rsi_length)
  have b: "\<forall>i<period. rsi vs period ! i = None"
    using assms(2) by (simp add: rsi_nth_early)
  have c: "spec_avgGain vs period period
           = sum_list (map (\<lambda>j. max (vs ! j - vs ! (j - 1)) 0) [1..<period + 1]) / real period"
    unfolding spec_avgGain_def by (subst spec_wilder.simps) (simp only: g spec_mean_def order_refl if_True)
  have d: "spec_avgLoss vs period period
           = sum_list (map (\<lambda>j. max (vs ! (j - 1) - vs ! j) 0) [1..<period + 1]) / real period"
    unfolding spec_avgLoss_def by (subst spec_wilder.simps) (simp only: l spec_mean_def order_refl if_True)
  have e: "spec_avgGain vs period i
              = (spec_avgGain vs period (i - 1) * (real period - 1)
                 + max (vs ! i - vs ! (i - 1)) 0) / real period
          \<and> spec_avgLoss vs period i
              = (spec_avgLoss vs period (i - 1) * (real period - 1)
                 + max (vs ! (i - 1) - vs ! i) 0) / real period" if "period < i" for i
  proof -
    have n: "\<not> i \<le> period" using that by simp
    have "spec_wilder (spec_gain vs) period i
            = (spec_wilder (spec_gain vs) period (i - 1) * (real period - 1) + spec_gain vs i) / real period"
      by (subst spec_wilder.simps) (simp only: n if_False)
    moreover have "spec_wilder (spec_loss vs) period i
            = (spec_wilder (spec_loss vs) period (i - 1) * (real period - 1) + spec_loss vs i) / real period"
      by (subst spec_wilder.simps) (simp only: n if_False)
    ultimately show ?thesis
      by (simp add: spec_avgGain_def spec_avgLoss_def spec_gain_def spec_loss_def)
  qed
  have f: "\<forall>i. period \<le> i \<and> i < length vs \<longrightarrow>
            rsi vs period ! i
              = Some (100 - 100 / (1 + spec_avgGain vs period i
                                        / (if spec_avgLoss vs period i = 0 then 1 / 10 ^ 8
                                           else spec_avgLoss vs period i)))"
  proof (intro allI impI)
    fix i assume "period \<le> i \<and> i < length vs"
    then show "rsi vs period ! i
              = Some (100 - 100 / (1 + spec_avgGain vs period i
                                        / (if spec_avgLoss vs period i = 0 then 1 / 10 ^ 8
                                           else spec_avgLoss vs period i)))"
      using rsi_nth_late[of period i vs] by (simp add: rsi_value_def)
  qed
  show ?thesis using a b c d e f by blast
qed

theorem rsi_wilder_witness:
  "(0::nat) < 14 \<and> 14 < length choppy15
   \<and> length (rsi choppy15 14) = length choppy15
   \<and> rsi choppy15 14 ! 0 = None
   \<and> rsi choppy15 14 ! 13 = None"
proof -
  have h: "(0::nat) < 14" "14 < length choppy15"
    by (simp_all add: choppy15_def)
  from rsi_wilder [OF h]
  have "length (rsi choppy15 14) = length choppy15" and "\<forall>i<14. rsi choppy15 14 ! i = None"
    by blast+
  then show ?thesis using h by simp
qed

text \<open>
  Claim C3 as stated has the entry at index \<open>period\<close> undefined. The code writes it:
  over fifteen values the entry at index 14 is a number.
\<close>

theorem rsi_defined_at_period:
  "14 < length choppy15 \<and> rsi choppy15 14 ! 14 \<noteq> None"
  by (simp add: rsi_nth_late choppy15_def)








section \<open>The analyzer's decisions\<close>

lemma ema_nth_Some:
  assumes "i < length vs"
  shows "ema vs len ! i = Some (ema_list (2 / (real len + 1)) vs ! i)"
  using assms by (simp add: ema_eq_list)

lemma Math_round_less: "Math_round x < z \<longleftrightarrow> x < of_int z - 1 / 2"
  by (simp add: Math_round_def floor_less_iff less_diff_eq)

lemma Math_round_greater: "z < Math_round x \<longleftrightarrow> of_int z + 1 / 2 \<le> x"
proof -
  have "z < Math_round x \<longleftrightarrow> z + 1 \<le> Math_round x" by linarith
  also have "\<dots> \<longleftrightarrow> of_int (z + 1) \<le> x + 1 / 2"
    unfolding Math_round_def by (rule le_floor_iff)
  also have "\<dots> \<longleftrightarrow> of_int z + 1 / 2 \<le> x"
    by (rule iffI) simp_all
  finally show ?thesis .
qed

lemma analyze_short:
  assumes "int (length ohlcArr) - 1 \<le> 21"
  shows "analyzeAndSignal ohlcArr =
           \<lparr>signal = HOLD, entry = None, stopLoss = None, takeProfit = None,
            confidence = None, reason = ''not enough data'', price = None,
            rsi_rounded = None\<rparr>"
  using assms by (simp add: analyzeAndSignal_def Let_def)

text \<open>
  Claim C6. When the last index of the series is at most 21, the analyzer returns HOLD
  with the reason "not enough data" and nothing else: no price, no RSI, whatever the
  closes are.
\<close>

theorem not_enough_data:
  assumes "int (length ohlcArr) - 1 \<le> 21"
  shows "analyzeAndSignal ohlcArr =
           \<lparr>signal = HOLD, entry = None, stopLoss = None, takeProfit = None,
            confidence = None, reason = ''not enough data'', price = None,
            rsi_rounded = None\<rparr>"
  using assms by (rule analyze_short)

theorem not_enough_data_witness:
  "int (length (map flat_candle rising20)) - 1 \<le> 21
   \<and> signal (analyzeAndSignal (map flat_candle rising20)) = HOLD
   \<and> reason (analyzeAndSignal (map flat_candle rising20)) = ''not enough data''"
  using not_enough_data [of "map flat_candle rising20"] by (simp add: rising20_def)

text \<open>
  With more than 22 candles every slot the analyzer reads is defined, and the analyzer is
  the three-way choice on the numbers in them.
\<close>

lemma analyze_long:
  assumes "22 < length ohlcArr"
    and "closes = map c_close ohlcArr"
    and "i = length ohlcArr - 1"
    and "a' = ema_list (2 / 10) closes ! (i - 1)"
    and "b' = ema_list (2 / 22) closes ! (i - 1)"
    and "a = ema_list (2 / 10) closes ! i"
    and "b = ema_list (2 / 22) closes ! i"
    and "\<rho> = rsi_value (spec_avgGain closes 14 i) (spec_avgLoss closes 14 i)"
    and "r = Math_round \<rho>"
    and "x = closes ! i"
  shows "ema closes 9 ! (i - 1) = Some a'" and "ema closes 21 ! (i - 1) = Some b'"
    and "ema closes 9 ! i = Some a" and "ema closes 21 ! i = Some b"
    and "rsi closes 14 ! i = Some \<rho>"
    and "analyzeAndSignal ohlcArr =
          (if (a' \<le> b' \<and> a > b) \<and> r < 45
           then \<lparr>signal = BUY, entry = Some x,
                 stopLoss = Some (toFixed2 (x - 0.5 * orOne \<bar>a - b\<bar>)),
                 takeProfit = Some (toFixed2 (x + 1.5 * orOne \<bar>a - b\<bar>)),
                 confidence = Some (toFixed2 (min 0.95 (0.6 + of_int (45 - r) / 100))),
                 reason = ''EMA up cross + RSI '' @ show_int r,
                 price = Some x, rsi_rounded = Some r\<rparr>
           else if (a' \<ge> b' \<and> a < b) \<and> r > 65
           then \<lparr>signal = SELL, entry = Some x,
                 stopLoss = Some (toFixed2 (x + 0.5 * orOne \<bar>a - b\<bar>)),
                 takeProfit = Some (toFixed2 (x - 1.5 * orOne \<bar>a - b\<bar>)),
                 confidence = Some (toFixed2 (min 0.95 (0.6 + of_int (r - 65) / 100))),
                 reason = ''EMA down cross + RSI '' @ show_int r,
                 price = Some x, rsi_rounded = Some r\<rparr>
           else \<lparr>signal = HOLD, entry = None, stopLoss = None, takeProfit = None,
                 confidence = None,
                 reason = ''No crossover (RSI '' @ show_int r @ '')'',
                 price = Some x, rsi_rounded = Some r\<rparr>)"
proof -
  have n: "length closes = length ohlcArr" using assms(2) by simp
  have i: "i < length closes" "i - 1 < length closes" "14 \<le> i"
    using assms(1,3) n by simp_all
  show s1: "ema closes 9 ! (i - 1) = Some a'"
    using ema_nth_Some[OF i(2), of 9] assms(4) by simp
  show l1: "ema closes 21 ! (i - 1) = Some b'"
    using ema_nth_Some[OF i(2), of 21] assms(5) by simp
  show s2: "ema closes 9 ! i = Some a"
    using ema_nth_Some[OF i(1), of 9] assms(6) by simp
  show l2: "ema closes 21 ! i = Some b"
    using ema_nth_Some[OF i(1), of 21] assms(7) by simp
  show rr: "rsi closes 14 ! i = Some \<rho>"
    using rsi_nth_late[OF i(3) i(1)] assms(8) by simp
  have big: "\<not> int (length closes) - 1 \<le> int 21"
    using assms(1) n by simp
  have ni: "nat (int (length closes) - 1) = i" "nat (int (length closes) - 1 - 1) = i - 1"
    using assms(1,3) n by simp_all
  show "analyzeAndSignal ohlcArr = (if (a' \<le> b' \<and> a > b) \<and> r < 45
           then \<lparr>signal = BUY, entry = Some x,
                 stopLoss = Some (toFixed2 (x - 0.5 * orOne \<bar>a - b\<bar>)),
                 takeProfit = Some (toFixed2 (x + 1.5 * orOne \<bar>a - b\<bar>)),
                 confidence = Some (toFixed2 (min 0.95 (0.6 + of_int (45 - r) / 100))),
                 reason = ''EMA up cross + RSI '' @ show_int r,
                 price = Some x, rsi_rounded = Some r\<rparr>
           else if (a' \<ge> b' \<and> a < b) \<and> r > 65
           then \<lparr>signal = SELL, entry = Some x,
                 stopLoss = Some (toFixed2 (x + 0.5 * orOne \<bar>a - b\<bar>)),
                 takeProfit = Some (toFixed2 (x - 1.5 * orOne \<bar>a - b\<bar>)),
                 confidence = Some (toFixed2 (min 0.95 (0.6 + of_int (r - 65) / 100))),
                 reason = ''EMA down cross + RSI '' @ show_int r,
                 price = Some x, rsi_rounded = Some r\<rparr>
           else \<lparr>signal = HOLD, entry = None, stopLoss = None, takeProfit = None,
                 confidence = None,
                 reason = ''No crossover (RSI '' @ show_int r @ '')'',
                 price = Some x, rsi_rounded = Some r\<rparr>)"
    unfolding analyzeAndSignal_def Let_def assms(2)[symmetric]
    by (simp only: big if_False ni s1 l1 s2 l2 rr toNumber_def option.case assms(9)[symmetric] assms(10)[symmetric])
qed






lemma near_miss_rsi_value:
  "rsi near_miss23 14 ! 22 = Some (1294324383400 / 28866010317)"
  by code_simp


lemma closes_flat [simp]: "map c_close (map flat_candle xs) = xs"
  by (induction xs) (simp_all add: flat_candle_def)

lemma closes_flat_comp [simp]: "map (c_close \<circ> flat_candle) xs = xs"
  by (induction xs) (simp_all add: flat_candle_def)

lemma near_miss_result:
  "analyzeAndSignal (map flat_candle near_miss23) =
     \<lparr>signal = HOLD, entry = None, stopLoss = None, takeProfit = None, confidence = None,
      reason = ''No crossover (RSI 45)'', price = Some 96, rsi_rounded = Some 45\<rparr>"
proof -
  have r: "Math_round (1294324383400 / 28866010317) = 45"
    by (simp add: Math_round_def)
  have s: "show_int 45 = ''45''"
    by (simp add: show_int_def digits.simps)
  have e: "ema near_miss23 9 ! 21 = Some (ema_list (2 / 10) near_miss23 ! 21)"
    "ema near_miss23 21 ! 21 = Some (ema_list (2 / 22) near_miss23 ! 21)"
    "ema near_miss23 9 ! 22 = Some (ema_list (2 / 10) near_miss23 ! 22)"
    "ema near_miss23 21 ! 22 = Some (ema_list (2 / 22) near_miss23 ! 22)"
    by (simp_all add: ema_nth_Some near_miss23_def)
  have c: "ema_list (2 / 10) near_miss23 ! 21 \<le> ema_list (2 / 22) near_miss23 ! 21"
    "ema_list (2 / 22) near_miss23 ! 22 < ema_list (2 / 10) near_miss23 ! 22"
    by (simp_all add: near_miss23_def ema_list_def)
  have n: "length near_miss23 = 23" "near_miss23 ! 22 = 96"
    by (simp_all add: near_miss23_def)
  show ?thesis
    unfolding analyzeAndSignal_def Let_def closes_flat
    by (simp add: n e near_miss_rsi_value r s c toNumber_def)
qed



text \<open>
  Claim C1, amended. With a last index \<open>i > 21\<close> the averages at \<open>i - 1\<close> and
  \<open>i\<close> and the RSI at \<open>i\<close> are all defined, and with \<open>r\<close> the RSI at \<open>i\<close>
  rounded to the nearest integer: BUY is returned exactly when the short average crossed up
  and \<open>r < 45\<close>, that is when the RSI is below 44.5; SELL exactly when it crossed down
  and \<open>r > 65\<close>, that is when the RSI is at least 65.5; and HOLD in every other case,
  with the reason "No crossover (RSI r)".
\<close>

theorem decision_rule:
  assumes "22 < length ohlcArr"
  shows "\<exists>a' b' a b \<rho>.
           ema (map c_close ohlcArr) 9 ! (length ohlcArr - 2) = Some a'
         \<and> ema (map c_close ohlcArr) 21 ! (length ohlcArr - 2) = Some b'
         \<and> ema (map c_close ohlcArr) 9 ! (length ohlcArr - 1) = Some a
         \<and> ema (map c_close ohlcArr) 21 ! (length ohlcArr - 1) = Some b
         \<and> rsi (map c_close ohlcArr) 14 ! (length ohlcArr - 1) = Some \<rho>
         \<and> (signal (analyzeAndSignal ohlcArr) = BUY
              \<longleftrightarrow> (a' \<le> b' \<and> b < a) \<and> Math_round \<rho> < 45)
         \<and> (signal (analyzeAndSignal ohlcArr) = SELL
              \<longleftrightarrow> (b' \<le> a' \<and> a < b) \<and> 65 < Math_round \<rho>)
         \<and> (signal (analyzeAndSignal ohlcArr) = HOLD
              \<longleftrightarrow> \<not> ((a' \<le> b' \<and> b < a) \<and> Math_round \<rho> < 45)
                \<and> \<not> ((b' \<le> a' \<and> a < b) \<and> 65 < Math_round \<rho>))
         \<and> (signal (analyzeAndSignal ohlcArr) = HOLD
              \<longrightarrow> reason (analyzeAndSignal ohlcArr)
                    = ''No crossover (RSI '' @ show_int (Math_round \<rho>) @ '')'')
         \<and> (Math_round \<rho> < 45 \<longleftrightarrow> \<rho> < 44.5)
         \<and> (65 < Math_round \<rho> \<longleftrightarrow> 65.5 \<le> \<rho>)"
proof -
  define closes where "closes = map c_close ohlcArr"
  define i where "i = length ohlcArr - 1"
  define a' where "a' = ema_list (2 / 10) closes ! (i - 1)"
  define b' where "b' = ema_list (2 / 22) closes ! (i - 1)"
  define a where "a = ema_list (2 / 10) closes ! i"
  define b where "b = ema_list (2 / 22) closes ! i"
  define \<rho> where "\<rho> = rsi_value (spec_avgGain closes 14 i) (spec_avgLoss closes 14 i)"
  define r where "r = Math_round \<rho>"
  define x where "x = closes ! i"
  note A = analyze_long[OF assms closes_def i_def a'_def b'_def a_def b_def \<rho>_def r_def x_def]
  have e: "ema (map c_close ohlcArr) 9 ! (length ohlcArr - 2) = Some a'"
    "ema (map c_close ohlcArr) 21 ! (length ohlcArr - 2) = Some b'"
    "ema (map c_close ohlcArr) 9 ! (length ohlcArr - 1) = Some a"
    "ema (map c_close ohlcArr) 21 ! (length ohlcArr - 1) = Some b"
    "rsi (map c_close ohlcArr) 14 ! (length ohlcArr - 1) = Some \<rho>"
    using A(1-5) by (simp_all add: closes_def i_def numeral_2_eq_2)
  have buy: "signal (analyzeAndSignal ohlcArr) = BUY \<longleftrightarrow> (a' \<le> b' \<and> b < a) \<and> r < 45"
    by (simp add: A(6))
  have sell: "signal (analyzeAndSignal ohlcArr) = SELL \<longleftrightarrow> (b' \<le> a' \<and> a < b) \<and> 65 < r"
    by (auto simp add: A(6))
  have hold: "signal (analyzeAndSignal ohlcArr) = HOLD
              \<longleftrightarrow> \<not> ((a' \<le> b' \<and> b < a) \<and> r < 45) \<and> \<not> ((b' \<le> a' \<and> a < b) \<and> 65 < r)"
    by (simp add: A(6))
  have why: "signal (analyzeAndSignal ohlcArr) = HOLD
              \<longrightarrow> reason (analyzeAndSignal ohlcArr) = ''No crossover (RSI '' @ show_int r @ '')''"
    by (simp add: A(6))
  have lo: "Math_round \<rho> < 45 \<longleftrightarrow> \<rho> < 44.5"
    using Math_round_less[of \<rho> 45] by simp
  have hi: "65 < Math_round \<rho> \<longleftrightarrow> 65.5 \<le> \<rho>"
    using Math_round_greater[of 65 \<rho>] by simp
  show ?thesis
    using e buy sell hold why lo hi unfolding r_def by blast
qed

theorem decision_rule_witness:
  "22 < length (map flat_candle near_miss23)
   \<and> (\<exists>a' b' a b \<rho>.
           ema (map c_close (map flat_candle near_miss23)) 9
             ! (length (map flat_candle near_miss23) - 2) = Some a'
         \<and> ema (map c_close (map flat_candle near_miss23)) 21
             ! (length (map flat_candle near_miss23) - 2) = Some b'
         \<and> ema (map c_close (map flat_candle near_miss23)) 9
             ! (length (map flat_candle near_miss23) - 1) = Some a
         \<and> ema (map c_close (map flat_candle near_miss23)) 21
             ! (length (map flat_candle near_miss23) - 1) = Some b
         \<and> rsi (map c_close (map flat_candle near_miss23)) 14
             ! (length (map flat_candle near_miss23) - 1) = Some \<rho>
         \<and> (signal (analyzeAndSignal (map flat_candle near_miss23)) = BUY
              \<longleftrightarrow> (a' \<le> b' \<and> b < a) \<and> Math_round \<rho> < 45)
         \<and> (signal (analyzeAndSignal (map flat_candle near_miss23)) = SELL
              \<longleftrightarrow> (b' \<le> a' \<and> a < b) \<and> 65 < Math_round \<rho>)
         \<and> (signal (analyzeAndSignal (map flat_candle near_miss23)) = HOLD
              \<longleftrightarrow> \<not> ((a' \<le> b' \<and> b < a) \<and> Math_round \<rho> < 45)
                \<and> \<not> ((b' \<le> a' \<and> a < b) \<and> 65 < Math_round \<rho>))
         \<and> (signal (analyzeAndSignal (map flat_candle near_miss23)) = HOLD
              \<longrightarrow> reason (analyzeAndSignal (map flat_candle near_miss23))
                    = ''No crossover (RSI '' @ show_int (Math_round \<rho>) @ '')'')
         \<and> (Math_round \<rho> < 45 \<longleftrightarrow> \<rho> < 44.5)
         \<and> (65 < Math_round \<rho> \<longleftrightarrow> 65.5 \<le> \<rho>))"
proof -
  have h: "22 < length (map flat_candle near_miss23)"
    by (simp add: near_miss23_def)
  show ?thesis
    using h decision_rule [OF h] by (rule conjI)
qed

text \<open>
  Claim C1 as stated compares the RSI itself with 45. Over this series the short average
  crosses above the long one at the last index and the RSI there is about 44.84, below
  45; it rounds to 45, and the analyzer returns HOLD.
\<close>

theorem near_miss_not_buy:
  "22 < length (map flat_candle near_miss23)
   \<and> toNumber (ema (map c_close (map flat_candle near_miss23)) 9 ! 21)
       \<le> toNumber (ema (map c_close (map flat_candle near_miss23)) 21 ! 21)
   \<and> toNumber (ema (map c_close (map flat_candle near_miss23)) 21 ! 22)
       < toNumber (ema (map c_close (map flat_candle near_miss23)) 9 ! 22)
   \<and> rsi (map c_close (map flat_candle near_miss23)) 14 ! 22
       = Some (1294324383400 / 28866010317)
   \<and> (1294324383400 / 28866010317 :: real) < 45
   \<and> signal (analyzeAndSignal (map flat_candle near_miss23)) = HOLD"
proof -
  have "toNumber (ema near_miss23 9 ! 21) \<le> toNumber (ema near_miss23 21 ! 21)"
    and "toNumber (ema near_miss23 21 ! 22) < toNumber (ema near_miss23 9 ! 22)"
    by (simp_all add: near_miss23_def ema_eq_list ema_list_def toNumber_def)
  moreover have "22 < length (map flat_candle near_miss23)"
    by (simp add: near_miss23_def)
  ultimately show ?thesis
    by (simp add: near_miss_rsi_value near_miss_result)
qed




section \<open>The server's state\<close>

lemma broadcast_fields [simp]:
  "ohlc (broadcast p s) = ohlc s"
  "lastSignal (broadcast p s) = lastSignal s"
  "length (clients (broadcast p s)) = length (clients s)"
  by (simp_all add: broadcast_def)

lemma on_message_ohlc:
  "ohlc (on_message SYMBOL f now s) =
     (case f of Kline c \<Rightarrow> if c_isFinal c then push_candle c (ohlc s) else ohlc s | _ \<Rightarrow> ohlc s)"
  by (simp add: on_message_def Let_def split: frame.splits)

lemma on_message_lastSignal:
  "lastSignal (on_message SYMBOL f now s) =
     (case f of
        Kline c \<Rightarrow>
          if c_isFinal c
          then Some (stamp (analyzeAndSignal (push_candle c (ohlc s))) SYMBOL now)
          else lastSignal s
      | _ \<Rightarrow> lastSignal s)"
  by (simp add: on_message_def Let_def split: frame.splits)

lemma push_candle_eq:
  "push_candle c h = (if length h < 500 then h @ [c] else drop 1 h @ [c])"
  by (cases h) (simp_all add: push_candle_def Let_def drop_Suc)

lemma push_candle_length:
  "length h \<le> 500 \<Longrightarrow> length (push_candle c h) \<le> 500"
  by (simp add: push_candle_eq)

lemma slice_last_length: "length (slice_last n xs) \<le> n"
  unfolding slice_last_def length_drop by arith

lemma step_keeps_bound:
  assumes "length (ohlc s) \<le> 500"
  shows "length (ohlc (step SYMBOL s e)) \<le> 500"
proof (cases e)
  case (Message f now)
  then show ?thesis
    using assms by (simp add: step_def on_message_ohlc push_candle_length split: frame.splits)
next
  case (Push_ohlc b)
  then show ?thesis
    using assms by (simp add: step_def push_ohlc_def slice_last_length Let_def split: body.splits)
next
  case Connection
  then show ?thesis using assms by (simp add: step_def on_connection_def Let_def)
next
  case (Client_close j)
  then show ?thesis using assms by (simp add: step_def on_client_close_def)
qed (use assms in \<open>simp_all add: step_def\<close>)

lemma run_keeps_bound:
  "length (ohlc s) \<le> 500 \<Longrightarrow> length (ohlc (run SYMBOL s es)) \<le> 500"
  unfolding run_def
  by (induction es arbitrary: s) (simp_all add: step_keeps_bound)

lemma push_candle_full:
  assumes "length xs = 500 + k"
  shows "push_candle c (drop k xs) = drop (Suc k) (xs @ [c])"
proof -
  have "length (drop k xs) = 500" using assms by simp
  then have "push_candle c (drop k xs) = drop 1 (drop k xs) @ [c]"
    by (simp add: push_candle_eq)
  also have "\<dots> = drop (Suc k) xs @ [c]" by simp
  also have "\<dots> = drop (Suc k) (xs @ [c])" using assms by simp
  finally show ?thesis .
qed

lemma foldl_push_candle:
  "length h \<le> 500 \<Longrightarrow>
   foldl (\<lambda>h c. push_candle c h) h cs = drop (length (h @ cs) - 500) (h @ cs)"
proof (induction cs rule: rev_induct)
  case Nil
  then show ?case by simp
next
  case (snoc c cs)
  define xs where "xs = h @ cs"
  have "foldl (\<lambda>h c. push_candle c h) h (cs @ [c]) = push_candle c (drop (length xs - 500) xs)"
    using snoc by (simp add: xs_def)
  also have "\<dots> = drop (length (xs @ [c]) - 500) (xs @ [c])"
  proof (cases "length xs < 500")
    case True
    then show ?thesis by (simp add: push_candle_eq)
  next
    case False
    then have l: "length xs = 500 + (length xs - 500)" by simp
    have "Suc (length xs - 500) = length (xs @ [c]) - 500" using False by simp
    then show ?thesis using push_candle_full[OF l, of c] by simp
  qed
  finally show ?case by (simp add: xs_def)
qed

lemma run_closed_frames:
  assumes "\<forall>cn\<in>set cns. c_isFinal (fst cn)"
  shows "ohlc (run SYMBOL s (closed_frames cns))
           = foldl (\<lambda>h c. push_candle c h) (ohlc s) (map fst cns)"
  using assms unfolding run_def closed_frames_def
proof (induction cns arbitrary: s)
  case Nil
  then show ?case by simp
next
  case (Cons cn cns)
  obtain c now where cn: "cn = (c, now)" by (cases cn)
  have "c_isFinal c" using Cons.prems cn by simp
  then have "ohlc (step SYMBOL s (Message (Kline c) now)) = push_candle c (ohlc s)"
    by (simp add: step_def on_message_ohlc)
  then show ?case using Cons cn by simp
qed

text \<open>
  Claim C4. In every state the server can reach the candle history holds at most 500
  entries. An append adds the candle at the end and drops the oldest entry when 500 are
  already held, and nothing else. After 1000 closed candles in a row, starting from any
  history of at most 500 entries, the history is exactly the last 500 of them, in
  arrival order.
\<close>

theorem history_bounded:
  "(\<forall>es. length (ohlc (run SYMBOL init es)) \<le> 500)
   \<and> (\<forall>c h. push_candle c h = (if length h < 500 then h @ [c] else drop 1 h @ [c]))
   \<and> (\<forall>s cns.
         length (ohlc s) \<le> 500 \<and> length cns = 1000 \<and> list_all (\<lambda>cn. c_isFinal (fst cn)) cns
         \<longrightarrow> length (ohlc (run SYMBOL s (closed_frames cns))) = 500
           \<and> ohlc (run SYMBOL s (closed_frames cns)) = drop 500 (map fst cns))"
proof -
  have a: "\<forall>es. length (ohlc (run SYMBOL init es)) \<le> 500"
    by (simp add: run_keeps_bound init_def)
  have b: "\<forall>c h. push_candle c h = (if length h < 500 then h @ [c] else drop 1 h @ [c])"
    by (simp only: push_candle_eq) simp
  have c: "length (ohlc (run SYMBOL s (closed_frames cns))) = 500
           \<and> ohlc (run SYMBOL s (closed_frames cns)) = drop 500 (map fst cns)"
    if "length (ohlc s) \<le> 500" "length cns = 1000" "list_all (\<lambda>cn. c_isFinal (fst cn)) cns"
    for s cns
  proof -
    have fin: "\<forall>cn\<in>set cns. c_isFinal (fst cn)"
      using that(3) by (simp add: list_all_iff)
    have "ohlc (run SYMBOL s (closed_frames cns))
            = drop (length (ohlc s @ map fst cns) - 500) (ohlc s @ map fst cns)"
      using that(1) fin by (simp only: run_closed_frames foldl_push_candle)
    also have "\<dots> = drop 500 (map fst cns)"
      using that by simp
    finally show ?thesis using that by simp
  qed
  show ?thesis using a b c by blast
qed

theorem history_bounded_witness:
  "length (ohlc init) \<le> 500
   \<and> length (map (\<lambda>j. (numbered_candle j, int j)) [0..<1000]) = 1000
   \<and> list_all (\<lambda>cn. c_isFinal (fst cn)) (map (\<lambda>j. (numbered_candle j, int j)) [0..<1000])
   \<and> length (ohlc (run ''btcusdt'' init
        (closed_frames (map (\<lambda>j. (numbered_candle j, int j)) [0..<1000])))) = 500
   \<and> ohlc (run ''btcusdt'' init
        (closed_frames (map (\<lambda>j. (numbered_candle j, int j)) [0..<1000])))
       = drop 500 (map fst (map (\<lambda>j. (numbered_candle j, int j)) [0..<1000]))"
proof -
  have h1: "length (ohlc init) \<le> 500"
    by (simp add: init_def)
  have h2: "length (map (\<lambda>j. (numbered_candle j, int j)) [0..<1000]) = 1000"
    by simp
  have h3: "list_all (\<lambda>cn. c_isFinal (fst cn)) (map (\<lambda>j. (numbered_candle j, int j)) [0..<1000])"
    by (simp add: list_all_iff numbered_candle_def flat_candle_def)
  show ?thesis
    using h1 h2 h3 history_bounded [of "''btcusdt''"] by blast
qed

text \<open>
  Claim C7. A request to overwrite the history whose body is not an array is answered
  with the error "send array" and leaves the whole state as it was; a body that is an
  array replaces the history by its last 500 elements and is answered with their count.
\<close>

theorem push_ohlc_overwrites:
  "push_ohlc NotArray s = (Bad_request ''send array'', s)
   \<and> push_ohlc (Array arr) s
       = (Ok_count (min (length arr) 500), s\<lparr>ohlc := drop (length arr - 500) arr\<rparr>)"
  by (simp add: push_ohlc_def slice_last_def Let_def min_def)

theorem push_ohlc_overwrites_witness:
  "push_ohlc NotArray (init\<lparr>ohlc := [flat_candle 1]\<rparr>)
     = (Bad_request ''send array'', init\<lparr>ohlc := [flat_candle 1]\<rparr>)
   \<and> push_ohlc (Array [flat_candle 2, flat_candle 3]) (init\<lparr>ohlc := [flat_candle 1]\<rparr>)
     = (Ok_count 2, init\<lparr>ohlc := [flat_candle 2, flat_candle 3]\<rparr>)"
  using push_ohlc_overwrites [of "init\<lparr>ohlc := [flat_candle 1]\<rparr>" "[flat_candle 2, flat_candle 3]"]
  by simp

lemma broadcast_received:
  assumes "n < length (clients s)"
  shows "received (clients (broadcast p s) ! n)
           = received (clients s ! n) @ (if readyOpen (clients s ! n) then [p] else [])"
  using assms by (simp add: broadcast_def send_def)

lemma broadcast_keeps_prefix:
  assumes "n < length (clients s)" and "prefix g (received (clients s ! n))"
  shows "prefix g (received (clients (broadcast p s) ! n))"
  using assms by (simp add: broadcast_received)

lemma step_keeps_prefix:
  assumes "n < length (clients s)" and "prefix g (received (clients s ! n))"
  shows "n < length (clients (step SYMBOL s e))
       \<and> prefix g (received (clients (step SYMBOL s e) ! n))"
proof (cases e)
  case (Message f now)
  show ?thesis
  proof (cases f)
    case (Kline c)
    let ?s1 = "broadcast (Price (c_t c) (c_close c)) s"
    have 1: "n < length (clients ?s1)" "prefix g (received (clients ?s1 ! n))"
      using assms by (simp_all add: broadcast_keeps_prefix)
    show ?thesis
    proof (cases "c_isFinal c")
      case True
      let ?sig = "stamp (analyzeAndSignal (push_candle c (ohlc ?s1))) SYMBOL now"
      let ?s2 = "?s1\<lparr>ohlc := push_candle c (ohlc ?s1), lastSignal := Some ?sig\<rparr>"
      have 2: "n < length (clients ?s2)" "prefix g (received (clients ?s2 ! n))"
        using 1 by simp_all
      have "step SYMBOL s e = broadcast (Signal ?sig) ?s2"
        using Message Kline True by (simp add: step_def on_message_def Let_def)
      then show ?thesis
        using broadcast_keeps_prefix[OF 2] 2(1) by simp
    next
      case False
      then have "step SYMBOL s e = ?s1"
        using Message Kline by (simp add: step_def on_message_def Let_def)
      then show ?thesis using 1 by simp
    qed
  qed (use assms Message in \<open>simp_all add: step_def on_message_def\<close>)
next
  case (Push_ohlc b)
  then show ?thesis
    using assms by (simp add: step_def push_ohlc_def Let_def split: body.splits)
next
  case Connection
  then show ?thesis
    using assms by (simp add: step_def on_connection_def Let_def nth_append)
next
  case (Client_close j)
  then show ?thesis
    using assms by (simp add: step_def on_client_close_def nth_list_update)
qed (use assms in \<open>simp_all add: step_def\<close>)

lemma run_keeps_prefix:
  assumes "n < length (clients s)" and "prefix g (received (clients s ! n))"
  shows "n < length (clients (run SYMBOL s es))
       \<and> prefix g (received (clients (run SYMBOL s es) ! n))"
  using assms unfolding run_def
proof (induction es arbitrary: s)
  case Nil
  then show ?case by simp
next
  case (Cons e es)
  from step_keeps_prefix[OF Cons.prems, of SYMBOL e] Cons.IH[of "step SYMBOL s e"]
  show ?case by simp
qed

lemma on_connection_received:
  "received (clients (on_connection s) ! length (clients s)) = greeting s"
  by (simp add: on_connection_def greeting_def send_def Let_def split: option.splits)

text \<open>
  Claim C9. A socket that connects is sent, at once and in this order, the last signal
  if there is one and then the status "connected". Whatever happens afterwards, what this
  subscriber has received starts with that greeting: the signal comes before any envelope
  published later.
\<close>

theorem greeting_comes_first:
  "received (clients (on_connection s) ! length (clients s)) = greeting s
   \<and> (\<forall>es. length (clients s) < length (clients (run SYMBOL (on_connection s) es))
          \<and> prefix (greeting s)
               (received (clients (run SYMBOL (on_connection s) es) ! length (clients s))))
   \<and> (\<forall>sig. lastSignal s = Some sig \<longrightarrow> greeting s = [Signal sig, Status ''connected''])
   \<and> (lastSignal s = None \<longrightarrow> greeting s = [Status ''connected''])"
proof -
  have a: "received (clients (on_connection s) ! length (clients s)) = greeting s"
    by (rule on_connection_received)
  have n: "length (clients s) < length (clients (on_connection s))"
    by (simp add: on_connection_def Let_def)
  have p: "prefix (greeting s) (received (clients (on_connection s) ! length (clients s)))"
    by (simp add: a)
  have b: "\<forall>es. length (clients s) < length (clients (run SYMBOL (on_connection s) es))
          \<and> prefix (greeting s)
               (received (clients (run SYMBOL (on_connection s) es) ! length (clients s)))"
    using run_keeps_prefix[OF n p] by blast
  have c: "\<forall>sig. lastSignal s = Some sig \<longrightarrow> greeting s = [Signal sig, Status ''connected'']"
    and d: "lastSignal s = None \<longrightarrow> greeting s = [Status ''connected'']"
    by (simp_all add: greeting_def)
  show ?thesis using a b c d by blast
qed

theorem greeting_comes_first_witness:
  "lastSignal (on_message ''btcusdt'' (Kline (flat_candle 100)) 1 init)
     = Some (stamp (analyzeAndSignal [flat_candle 100]) ''btcusdt'' 1)
   \<and> greeting (on_message ''btcusdt'' (Kline (flat_candle 100)) 1 init)
       = [Signal (stamp (analyzeAndSignal [flat_candle 100]) ''btcusdt'' 1), Status ''connected'']
   \<and> prefix [Signal (stamp (analyzeAndSignal [flat_candle 100]) ''btcusdt'' 1), Status ''connected'']
       (received (clients (run ''btcusdt''
          (on_connection (on_message ''btcusdt'' (Kline (flat_candle 100)) 1 init))
          [Message (Kline (flat_candle 101)) 2])
        ! length (clients (on_message ''btcusdt'' (Kline (flat_candle 100)) 1 init))))"
proof -
  have h: "lastSignal (on_message ''btcusdt'' (Kline (flat_candle 100)) 1 init)
     = Some (stamp (analyzeAndSignal [flat_candle 100]) ''btcusdt'' 1)"
    by (simp add: on_message_lastSignal init_def flat_candle_def push_candle_eq)
  show ?thesis
    using h greeting_comes_first [of "on_message ''btcusdt'' (Kline (flat_candle 100)) 1 init" "''btcusdt''"]
    by metis
qed






end
